theory Spec2Isabelle
  imports Main "HOL-Library.Word"
begin

section \<open>Addresses, errors and the operating system\<close>

text \<open>
  Pointers are byte addresses, modelled as natural numbers. C++ pointer arithmetic that
  leaves the address space is undefined behaviour, so addresses do not wrap in this
  model. The only machine integer whose wrap-around is defined and reachable is the
  per-page reference count (\<open>std::uint32_t\<close>); it is a 32-bit word.
\<close>

type_synonym addr = nat

text \<open>
  The two exceptions of \<open>no_swap_allocator.cpp\<close>: \<open>std::system_error{errno, ...}\<close>
  thrown by \<open>pin_memory\<close>/\<open>unpin_memory\<close>, and the \<open>std::runtime_error\<close> thrown by
  \<open>remove_allocation\<close>. An upstream allocator may fail with \<open>std::bad_alloc\<close>.
\<close>

datatype error =
    system_error int string
  | runtime_error string
  | bad_alloc

datatype os_call = Mlock addr nat | Munlock addr nat

text \<open>
  The operating system as far as \<open>mlock\<close>, \<open>munlock\<close> and \<open>sysconf(_SC_PAGESIZE)\<close>
  show it: the page size, the set of page bases currently locked, the history of calls,
  \<open>errno\<close>, and a script \<open>outcomes\<close> that fixes what the coming calls answer (\<open>0\<close> for
  success, any other value is the \<open>errno\<close> of a failing call; an exhausted script means
  success). A call locks or unlocks every page that the byte range touches and changes
  no lock when it fails.
\<close>

record os_state =
  os_page_size :: nat
  locked :: "addr set"
  calls :: "os_call list"
  errno :: int
  outcomes :: "int list"

definition os_pages :: "nat \<Rightarrow> addr \<Rightarrow> nat \<Rightarrow> addr set" where
  "os_pages ps a l =
     (if l = 0 then {} else (\<lambda>k. k * ps) ` {a div ps .. (a + l - 1) div ps})"

definition mlock :: "addr \<Rightarrow> nat \<Rightarrow> os_state \<Rightarrow> int \<times> os_state" where
  "mlock a l os =
     (let os1 = os\<lparr>calls := calls os @ [Mlock a l]\<rparr> in
      case outcomes os1 of
        [] \<Rightarrow> (0, os1\<lparr>locked := locked os1 \<union> os_pages (os_page_size os1) a l\<rparr>)
      | e # es \<Rightarrow>
          if e = 0
          then (0, os1\<lparr>locked := locked os1 \<union> os_pages (os_page_size os1) a l,
                       outcomes := es\<rparr>)
          else (- 1, os1\<lparr>errno := e, outcomes := es\<rparr>))"

definition munlock :: "addr \<Rightarrow> nat \<Rightarrow> os_state \<Rightarrow> int \<times> os_state" where
  "munlock a l os =
     (let os1 = os\<lparr>calls := calls os @ [Munlock a l]\<rparr> in
      case outcomes os1 of
        [] \<Rightarrow> (0, os1\<lparr>locked := locked os1 - os_pages (os_page_size os1) a l\<rparr>)
      | e # es \<Rightarrow>
          if e = 0
          then (0, os1\<lparr>locked := locked os1 - os_pages (os_page_size os1) a l,
                       outcomes := es\<rparr>)
          else (- 1, os1\<lparr>errno := e, outcomes := es\<rparr>))"

definition get_page_size :: "os_state \<Rightarrow> nat" where
  "get_page_size os = os_page_size os"

definition pin_memory :: "addr \<Rightarrow> nat \<Rightarrow> os_state \<Rightarrow> error option \<times> os_state" where
  "pin_memory ptr len os =
     (case mlock ptr len os of
        (r, os') \<Rightarrow>
          if r \<noteq> 0 then (Some (system_error (errno os') ''pinning memory''), os')
          else (None, os'))"

definition unpin_memory :: "addr \<Rightarrow> nat \<Rightarrow> os_state \<Rightarrow> error option \<times> os_state" where
  "unpin_memory ptr len os =
     (case munlock ptr len os of
        (r, os') \<Rightarrow>
          if r \<noteq> 0 then (Some (system_error (errno os') ''unpinning memory''), os')
          else (None, os'))"

section \<open>The page lock tracker\<close>

text \<open>
  \<open>no_swap_allocator_state\<close>: the map \<open>_page_ref_count\<close>, the mutex (held or not) and
  \<open>_page_size\<close>. The field \<open>os\<close> is the operating system the singleton talks to, kept in
  the same record so that one state is threaded through the calls. A throwing call
  returns \<open>Some\<close> error together with the state it leaves behind.
\<close>

record no_swap_allocator_state =
  page_ref_count :: "addr \<rightharpoonup> 32 word"
  mutex_locked :: bool
  page_size :: nat
  os :: os_state

definition new_state :: "os_state \<Rightarrow> no_swap_allocator_state" where
  "new_state os0 =
     \<lparr>page_ref_count = Map.empty, mutex_locked = False,
      page_size = get_page_size os0, os = os0\<rparr>"

text \<open>
  \<open>std::align(alignment, size, ptr, space)\<close> of the C++ standard library, from its
  specification: the first address not below \<open>ptr\<close> that is a multiple of \<open>alignment\<close>,
  when \<open>size\<close> bytes fit there into the \<open>space\<close> bytes from \<open>ptr\<close>; the null pointer
  (address \<open>0\<close>) otherwise. The standard asks for a power of two as alignment.
\<close>

definition std_align :: "nat \<Rightarrow> nat \<Rightarrow> addr \<Rightarrow> nat \<Rightarrow> addr" where
  "std_align alignment sz ptr space =
     (let aligned = ((ptr + alignment - 1) div alignment) * alignment;
          diff = aligned - ptr
      in if space < sz \<or> diff > space - sz then 0 else aligned)"

definition to_page :: "no_swap_allocator_state \<Rightarrow> addr \<Rightarrow> addr" where
  "to_page s ptr =
     (let fake_buffer_size = 2 * page_size s;
          page = std_align (page_size s) 1 ptr fake_buffer_size
      in if page > ptr then page - page_size s else page)"

definition add_allocation_body ::
  "addr \<Rightarrow> no_swap_allocator_state \<Rightarrow> error option \<times> no_swap_allocator_state" where
  "add_allocation_body page s =
     (case page_ref_count s page of
        None \<Rightarrow>
          (let s1 = s\<lparr>page_ref_count := (page_ref_count s)(page \<mapsto> 1)\<rparr> in
           case pin_memory page (page_size s1) (os s1) of
             (r, os') \<Rightarrow> (r, s1\<lparr>os := os'\<rparr>))
      | Some c \<Rightarrow> (None, s\<lparr>page_ref_count := (page_ref_count s)(page \<mapsto> c + 1)\<rparr>))"

partial_function (option) add_allocation_loop ::
  "addr \<Rightarrow> addr \<Rightarrow> no_swap_allocator_state \<Rightarrow>
     (error option \<times> no_swap_allocator_state) option" where
  "add_allocation_loop page end_ptr s =
     (if page < end_ptr
      then (case add_allocation_body page s of
              (Some e, s') \<Rightarrow> Some (Some e, s')
            | (None, s') \<Rightarrow> add_allocation_loop (page + page_size s') end_ptr s')
      else Some (None, s))"

declare add_allocation_loop.simps [code]

definition add_allocation ::
  "no_swap_allocator_state \<Rightarrow> addr \<Rightarrow> nat \<Rightarrow>
     (error option \<times> no_swap_allocator_state) option" where
  "add_allocation s ptr len =
     (let bptr = ptr; page = to_page s bptr
      in add_allocation_loop page (bptr + len) s)"

definition remove_allocation_body ::
  "addr \<Rightarrow> no_swap_allocator_state \<Rightarrow> error option \<times> no_swap_allocator_state" where
  "remove_allocation_body page s =
     (case page_ref_count s page of
        None \<Rightarrow>
          (Some (runtime_error ''Releasing memory not tracked by no_swap_allocator''), s)
      | Some c \<Rightarrow>
          (let s1 = s\<lparr>page_ref_count := (page_ref_count s)(page \<mapsto> c - 1)\<rparr> in
           if c - 1 = 0
           then (case unpin_memory page (page_size s1) (os s1) of
                   (Some e, os') \<Rightarrow> (Some e, s1\<lparr>os := os'\<rparr>)
                 | (None, os') \<Rightarrow>
                     (None, s1\<lparr>os := os',
                                 page_ref_count := (page_ref_count s1)(page := None)\<rparr>))
           else (None, s1)))"

partial_function (option) remove_allocation_loop ::
  "addr \<Rightarrow> addr \<Rightarrow> no_swap_allocator_state \<Rightarrow>
     (error option \<times> no_swap_allocator_state) option" where
  "remove_allocation_loop page end_ptr s =
     (if page < end_ptr
      then (case remove_allocation_body page s of
              (Some e, s') \<Rightarrow> Some (Some e, s')
            | (None, s') \<Rightarrow> remove_allocation_loop (page + page_size s') end_ptr s')
      else Some (None, s))"

declare remove_allocation_loop.simps [code]

definition remove_allocation ::
  "no_swap_allocator_state \<Rightarrow> addr \<Rightarrow> nat \<Rightarrow>
     (error option \<times> no_swap_allocator_state) option" where
  "remove_allocation s ptr len =
     (let bptr = ptr; page = to_page s bptr
      in remove_allocation_loop page (bptr + len) s)"

text \<open>
  The synchronized entry points take \<open>std::lock_guard lk{_mutex}\<close> around the same
  logic: the mutex is held during the call and released when the guard leaves scope,
  also when the call throws. Locking a mutex that is already held never returns.
\<close>

definition serialized_add_allocation ::
  "no_swap_allocator_state \<Rightarrow> addr \<Rightarrow> nat \<Rightarrow>
     (error option \<times> no_swap_allocator_state) option" where
  "serialized_add_allocation s ptr len =
     (if mutex_locked s then None
      else case add_allocation (s\<lparr>mutex_locked := True\<rparr>) ptr len of
             None \<Rightarrow> None
           | Some (r, s') \<Rightarrow> Some (r, s'\<lparr>mutex_locked := False\<rparr>))"

definition serialized_remove_allocation ::
  "no_swap_allocator_state \<Rightarrow> addr \<Rightarrow> nat \<Rightarrow>
     (error option \<times> no_swap_allocator_state) option" where
  "serialized_remove_allocation s ptr len =
     (if mutex_locked s then None
      else case remove_allocation (s\<lparr>mutex_locked := True\<rparr>) ptr len of
             None \<Rightarrow> None
           | Some (r, s') \<Rightarrow> Some (r, s'\<lparr>mutex_locked := False\<rparr>))"

section \<open>The allocator adapters\<close>

text \<open>
  The world an allocator acts on: the bytes of memory, the tracker singleton that every
  no-swap allocator shares through \<open>_state\<close>, and the state of the innermost upstream
  allocator. An allocator (the template parameter \<open>A\<close>) is its pair of member functions
  over that world; \<open>allocate\<close> returns the pointer or the exception thrown, and
  \<open>None\<close> stands for a call that does not return. The element type \<open>T\<close> enters only
  through \<open>sizeof(T)\<close>.
\<close>

record 'u world =
  memory :: "addr \<Rightarrow> 8 word"
  state_object :: no_swap_allocator_state
  upstream_state :: 'u

record 'w allocator =
  allocate :: "nat \<Rightarrow> 'w \<Rightarrow> ((error + addr) \<times> 'w) option"
  deallocate :: "addr \<Rightarrow> nat \<Rightarrow> 'w \<Rightarrow> (error option \<times> 'w) option"

definition unserialized_no_swap_allocator ::
  "nat \<Rightarrow> 'u world allocator \<Rightarrow> 'u world allocator" where
  "unserialized_no_swap_allocator sizeof_T upstream_allocator =
     \<lparr>allocate = (\<lambda>len w.
        case allocate upstream_allocator len w of
          None \<Rightarrow> None
        | Some (Inl e, w1) \<Rightarrow> Some (Inl e, w1)
        | Some (Inr ptr, w1) \<Rightarrow>
            (case add_allocation (state_object w1) ptr (len * sizeof_T) of
               None \<Rightarrow> None
             | Some (Some e, st) \<Rightarrow> Some (Inl e, w1\<lparr>state_object := st\<rparr>)
             | Some (None, st) \<Rightarrow> Some (Inr ptr, w1\<lparr>state_object := st\<rparr>))),
      deallocate = (\<lambda>ptr len w.
        case remove_allocation (state_object w) ptr (len * sizeof_T) of
          None \<Rightarrow> None
        | Some (Some e, st) \<Rightarrow> Some (Some e, w\<lparr>state_object := st\<rparr>)
        | Some (None, st) \<Rightarrow>
            deallocate upstream_allocator ptr len (w\<lparr>state_object := st\<rparr>))\<rparr>"

definition serialized_no_swap_allocator ::
  "nat \<Rightarrow> 'u world allocator \<Rightarrow> 'u world allocator" where
  "serialized_no_swap_allocator sizeof_T upstream_allocator =
     \<lparr>allocate = (\<lambda>len w.
        case allocate upstream_allocator len w of
          None \<Rightarrow> None
        | Some (Inl e, w1) \<Rightarrow> Some (Inl e, w1)
        | Some (Inr ptr, w1) \<Rightarrow>
            (case serialized_add_allocation (state_object w1) ptr (len * sizeof_T) of
               None \<Rightarrow> None
             | Some (Some e, st) \<Rightarrow> Some (Inl e, w1\<lparr>state_object := st\<rparr>)
             | Some (None, st) \<Rightarrow> Some (Inr ptr, w1\<lparr>state_object := st\<rparr>))),
      deallocate = (\<lambda>ptr len w.
        case serialized_remove_allocation (state_object w) ptr (len * sizeof_T) of
          None \<Rightarrow> None
        | Some (Some e, st) \<Rightarrow> Some (Some e, w\<lparr>state_object := st\<rparr>)
        | Some (None, st) \<Rightarrow>
            deallocate upstream_allocator ptr len (w\<lparr>state_object := st\<rparr>))\<rparr>"

text \<open>
  \<open>std::fill(first, last, value)\<close> over bytes: assigns \<open>value\<close> to every address from
  \<open>first\<close> up to, not including, \<open>last\<close>.
\<close>

function std_fill :: "addr \<Rightarrow> addr \<Rightarrow> 8 word \<Rightarrow> (addr \<Rightarrow> 8 word) \<Rightarrow> addr \<Rightarrow> 8 word" where
  "std_fill first lst v m =
     (if first < lst then std_fill (first + 1) lst v (m(first := v)) else m)"
  by pat_completeness auto
termination
  by (relation "measure (\<lambda>(first, lst, v, m). lst - first)") auto

declare std_fill.simps [simp del]

definition zero_on_release_allocator ::
  "nat \<Rightarrow> 'u world allocator \<Rightarrow> 'u world allocator" where
  "zero_on_release_allocator sizeof_T upstream_allocator =
     \<lparr>allocate = (\<lambda>len w.
        case allocate upstream_allocator len w of
          None \<Rightarrow> None
        | Some (Inl e, w1) \<Rightarrow> Some (Inl e, w1)
        | Some (Inr ptr, w1) \<Rightarrow> Some (Inr ptr, w1)),
      deallocate = (\<lambda>ptr len w.
        let w1 = w\<lparr>memory := std_fill ptr (ptr + len * sizeof_T) 0 (memory w)\<rparr>
        in deallocate upstream_allocator ptr len w1)\<rparr>"

definition serialized_secure_allocator ::
  "nat \<Rightarrow> 'u world allocator \<Rightarrow> 'u world allocator" where
  "serialized_secure_allocator sizeof_T A =
     zero_on_release_allocator sizeof_T (serialized_no_swap_allocator sizeof_T A)"

definition unserialized_secure_allocator ::
  "nat \<Rightarrow> 'u world allocator \<Rightarrow> 'u world allocator" where
  "unserialized_secure_allocator sizeof_T A =
     zero_on_release_allocator sizeof_T (unserialized_no_swap_allocator sizeof_T A)"

text \<open>
  The upstream allocator of the unit tests (\<open>mock::monitored_allocator\<close> over
  \<open>mock::memory\<close>): it hands out the next bytes of one fixed array, never reuses them,
  and records every call.
\<close>

datatype monitor_call = Void_allocate nat | Void_deallocate addr nat

record mock_state =
  memory_base :: addr
  next_allocation_offset :: nat
  monitor :: "monitor_call list"

definition memory_size :: nat where
  "memory_size = 2 ^ 16"

definition acquire :: "nat \<Rightarrow> mock_state \<Rightarrow> (error + addr) \<times> mock_state" where
  "acquire n m =
     (if next_allocation_offset m + n > memory_size then (Inl bad_alloc, m)
      else (Inr (memory_base m + next_allocation_offset m),
            m\<lparr>next_allocation_offset := next_allocation_offset m + n\<rparr>))"

definition monitored_allocator :: "nat \<Rightarrow> mock_state world allocator" where
  "monitored_allocator sizeof_T =
     \<lparr>allocate = (\<lambda>n w.
        let m1 = (upstream_state w)
                   \<lparr>monitor := monitor (upstream_state w) @ [Void_allocate (n * sizeof_T)]\<rparr>
        in case acquire (sizeof_T * ((n * sizeof_T) div sizeof_T)) m1 of
             (r, m2) \<Rightarrow> Some (r, w\<lparr>upstream_state := m2\<rparr>)),
      deallocate = (\<lambda>p n w.
        Some (None,
              w\<lparr>upstream_state := (upstream_state w)
                 \<lparr>monitor := monitor (upstream_state w) @
                             [Void_deallocate p (n * sizeof_T)]\<rparr>\<rparr>))\<rparr>"

section \<open>The page walk as a list\<close>

function pages_walked :: "nat \<Rightarrow> addr \<Rightarrow> addr \<Rightarrow> addr list" where
  "pages_walked ps page end_ptr =
     (if page < end_ptr \<and> 0 < ps then page # pages_walked ps (page + ps) end_ptr else [])"
  by pat_completeness auto
termination
  by (relation "measure (\<lambda>(ps, page, end_ptr). end_ptr - page)") auto

declare pages_walked.simps [simp del]

fun add_pages ::
  "addr list \<Rightarrow> no_swap_allocator_state \<Rightarrow> error option \<times> no_swap_allocator_state" where
  "add_pages [] s = (None, s)"
| "add_pages (p # ps) s =
     (case add_allocation_body p s of
        (Some e, s') \<Rightarrow> (Some e, s')
      | (None, s') \<Rightarrow> add_pages ps s')"

fun remove_pages ::
  "addr list \<Rightarrow> no_swap_allocator_state \<Rightarrow> error option \<times> no_swap_allocator_state" where
  "remove_pages [] s = (None, s)"
| "remove_pages (p # ps) s =
     (case remove_allocation_body p s of
        (Some e, s') \<Rightarrow> (Some e, s')
      | (None, s') \<Rightarrow> remove_pages ps s')"

definition pages_touched :: "no_swap_allocator_state \<Rightarrow> addr \<Rightarrow> nat \<Rightarrow> addr list" where
  "pages_touched s ptr len = pages_walked (page_size s) (to_page s ptr) (ptr + len)"

definition incremented :: "32 word option \<Rightarrow> 32 word" where
  "incremented v = (case v of None \<Rightarrow> 1 | Some c \<Rightarrow> c + 1)"

definition decremented :: "32 word option \<Rightarrow> 32 word option" where
  "decremented v = (case v of None \<Rightarrow> None | Some c \<Rightarrow> if c = 1 then None else Some (c - 1))"

section \<open>Vocabulary of the properties\<close>


text \<open>
  The tracker's invariant as the specification words it: a page in the map has a count
  of at least one and is locked; a page not in the map is not locked.
\<close>

definition tracker_inv :: "no_swap_allocator_state \<Rightarrow> bool" where
  "tracker_inv s =
     (\<forall>p. case page_ref_count s p of
            Some c \<Rightarrow> 1 \<le> c \<and> p \<in> locked (os s)
          | None \<Rightarrow> p \<notin> locked (os s))"

datatype tracker_call = Add addr nat | Remove addr nat

fun call :: "tracker_call \<Rightarrow> no_swap_allocator_state \<Rightarrow>
    (error option \<times> no_swap_allocator_state) option" where
  "call (Add ptr len) s = add_allocation s ptr len"
| "call (Remove ptr len) s = remove_allocation s ptr len"

text \<open>
  The states a fresh tracker reaches through any calls, failing ones included; and the
  states it reaches when no operating system call fails and no count is incremented
  past \<open>2^32 - 1\<close> (a release of untracked memory may still fail).
\<close>

inductive reachable :: "no_swap_allocator_state \<Rightarrow> bool" where
  reachable_new: "0 < os_page_size os0 \<Longrightarrow> locked os0 = {} \<Longrightarrow> reachable (new_state os0)"
| reachable_call: "reachable s \<Longrightarrow> call c s = Some (r, s') \<Longrightarrow> reachable s'"

fun os_failure :: "error option \<Rightarrow> bool" where
  "os_failure (Some (system_error n m)) = True"
| "os_failure r = False"

fun count_overflow :: "tracker_call \<Rightarrow> no_swap_allocator_state \<Rightarrow> bool" where
  "count_overflow (Add ptr len) s =
     (\<exists>p \<in> set (pages_touched s ptr len). page_ref_count s p = Some (- 1))"
| "count_overflow (Remove ptr len) s = False"

inductive reachable_without_failure :: "no_swap_allocator_state \<Rightarrow> bool" where
  rwf_new: "0 < os_page_size os0 \<Longrightarrow> locked os0 = {} \<Longrightarrow>
            reachable_without_failure (new_state os0)"
| rwf_call: "reachable_without_failure s \<Longrightarrow> call c s = Some (r, s') \<Longrightarrow>
             \<not> os_failure r \<Longrightarrow> \<not> count_overflow c s \<Longrightarrow>
             reachable_without_failure s'"

text \<open>Counting the pin and unpin calls for one page in a history of calls.\<close>

fun is_pin :: "addr \<Rightarrow> os_call \<Rightarrow> bool" where
  "is_pin p (Mlock a l) = (a = p)"
| "is_pin p (Munlock a l) = False"

fun is_unpin :: "addr \<Rightarrow> os_call \<Rightarrow> bool" where
  "is_unpin p (Munlock a l) = (a = p)"
| "is_unpin p (Mlock a l) = False"

definition pin_calls :: "addr \<Rightarrow> no_swap_allocator_state \<Rightarrow> nat" where
  "pin_calls p s = length (filter (is_pin p) (calls (os s)))"

definition unpin_calls :: "addr \<Rightarrow> no_swap_allocator_state \<Rightarrow> nat" where
  "unpin_calls p s = length (filter (is_unpin p) (calls (os s)))"

text \<open>
  A run of calls that all return normally, as the list of the states after each call.
\<close>

fun run :: "tracker_call list \<Rightarrow> no_swap_allocator_state \<Rightarrow>
    no_swap_allocator_state list option" where
  "run [] s = Some []"
| "run (c # cs) s =
     (case call c s of
        Some (None, s') \<Rightarrow> (case run cs s' of None \<Rightarrow> None | Some ss \<Rightarrow> Some (s' # ss))
      | _ \<Rightarrow> None)"

text \<open>A system with pages of 4096 bytes, nothing locked, where every call succeeds.\<close>

definition os_4096 :: os_state where
  "os_4096 = \<lparr>os_page_size = 4096, locked = {}, calls = [], errno = 0, outcomes = []\<rparr>"

text \<open>
  The tracker after \<open>add_allocation(100, 5000)\<close> on a fresh tracker; a tracker that holds
  page 0 once; and that tracker on a system whose next call fails with \<open>ENOMEM\<close> (12).
\<close>

definition tracked_two_pages :: no_swap_allocator_state where
  "tracked_two_pages =
     \<lparr>page_ref_count = [0 \<mapsto> 1, 4096 \<mapsto> 1], mutex_locked = False, page_size = 4096,
      os = \<lparr>os_page_size = 4096, locked = {0, 4096},
             calls = [Mlock 0 4096, Mlock 4096 4096], errno = 0, outcomes = []\<rparr>\<rparr>"

definition tracked_page_0 :: no_swap_allocator_state where
  "tracked_page_0 =
     \<lparr>page_ref_count = [0 \<mapsto> 1], mutex_locked = False, page_size = 4096,
      os = \<lparr>os_page_size = 4096, locked = {0},
             calls = [Mlock 0 4096], errno = 0, outcomes = []\<rparr>\<rparr>"

definition tracked_page_0_failing :: no_swap_allocator_state where
  "tracked_page_0_failing =
     \<lparr>page_ref_count = [0 \<mapsto> 1], mutex_locked = False, page_size = 4096,
      os = \<lparr>os_page_size = 4096, locked = {0},
             calls = [Mlock 0 4096], errno = 0, outcomes = [12]\<rparr>\<rparr>"

text \<open>
  The invariant together with what the constructor fixes: the page size of the tracker
  is the positive page size of the system.
\<close>

definition tracker_ok :: "no_swap_allocator_state \<Rightarrow> bool" where
  "tracker_ok s =
     (tracker_inv s \<and> 0 < page_size s \<and> os_page_size (os s) = page_size s)"

text \<open>
  A system whose next call fails with \<open>ENOMEM\<close>, and the tracker that
  \<open>add_allocation(0, 1)\<close> leaves behind on it.
\<close>

definition os_4096_failing :: os_state where
  "os_4096_failing =
     \<lparr>os_page_size = 4096, locked = {}, calls = [], errno = 0, outcomes = [12]\<rparr>"

definition registered_not_locked :: no_swap_allocator_state where
  "registered_not_locked =
     \<lparr>page_ref_count = [0 \<mapsto> 1], mutex_locked = False, page_size = 4096,
      os = \<lparr>os_page_size = 4096, locked = {}, calls = [Mlock 0 4096], errno = 12,
             outcomes = []\<rparr>\<rparr>"

section \<open>Page base computation\<close>

lemma std_align_round_up:
  assumes "0 < ps"
  shows "std_align ps (Suc 0) ptr (2 * ps) = ((ptr + ps - Suc 0) div ps) * ps"
proof -
  let ?a = "((ptr + ps - Suc 0) div ps) * ps"
  have "?a \<le> ptr + ps - Suc 0"
    by simp
  then have "?a - ptr \<le> 2 * ps - 1"
    using assms by linarith
  then show ?thesis
    using assms by (simp add: std_align_def Let_def)
qed

lemma div_offset: "r < (ps::nat) \<Longrightarrow> (r + k * ps) div ps = k"
  by (metis div_mult_self1 div_less Nat.add_0_right less_nat_zero_code neq0_conv
      add.commute add_0)

lemma round_up_cases:
  assumes "0 < (ps::nat)"
  shows "((ptr + ps - Suc 0) div ps) * ps =
           (if ptr mod ps = 0 then ptr else ptr - ptr mod ps + ps)"
proof (cases "ptr mod ps = 0")
  case True
  then obtain q where q: "ptr = q * ps"
    by (metis mod_0_imp_dvd dvd_div_mult_self)
  have "q * ps + ps - Suc 0 = (ps - Suc 0) + q * ps"
    using assms by linarith
  moreover have "ps - Suc 0 < ps"
    using assms by simp
  ultimately have "(q * ps + ps - Suc 0) div ps = q"
    by (simp only: div_offset)
  with True q show ?thesis
    by simp
next
  case False
  define q r where "q = ptr div ps" and "r = ptr mod ps"
  have ptr: "ptr = q * ps + r"
    by (simp add: q_def r_def)
  have r: "0 < r" "r < ps"
    using False assms by (simp_all add: r_def)
  have "ptr + ps - Suc 0 = (r - 1) + (q + 1) * ps"
    using r by (simp add: ptr)
  moreover have "r - 1 < ps"
    using r by simp
  ultimately have "(ptr + ps - Suc 0) div ps = q + 1"
    by (simp only: div_offset)
  moreover have "ptr - ptr mod ps = q * ps"
    by (simp add: q_def minus_mod_eq_div_mult)
  ultimately show ?thesis
    using False by simp
qed

lemma std_align_page:
  assumes "0 < ps"
  shows "std_align ps (Suc 0) ptr (2 * ps) =
           (if ptr mod ps = 0 then ptr else ptr - ptr mod ps + ps)"
  using assms by (simp only: std_align_round_up round_up_cases)

lemma to_page_floor:
  assumes "0 < page_size s"
  shows "to_page s ptr = ptr - ptr mod page_size s"
proof -
  have "ptr mod page_size s \<le> ptr"
    by (rule mod_less_eq_dividend)
  moreover have "0 < ptr mod page_size s \<Longrightarrow> ptr < ptr + page_size s - ptr mod page_size s"
    using assms less_diff_conv by fastforce
  ultimately show ?thesis
    using assms by (simp add: to_page_def Let_def std_align_page)
qed

section \<open>The walk of the two loops\<close>

lemma add_allocation_body_page_size [simp]:
  "page_size (snd (add_allocation_body p s)) = page_size s"
  by (simp add: add_allocation_body_def Let_def split: option.split prod.split)

lemma remove_allocation_body_page_size [simp]:
  "page_size (snd (remove_allocation_body p s)) = page_size s"
  by (simp add: remove_allocation_body_def Let_def split: option.split prod.split)

lemma add_allocation_loop_pages:
  "0 < page_size s \<Longrightarrow>
   add_allocation_loop page end_ptr s =
     Some (add_pages (pages_walked (page_size s) page end_ptr) s)"
proof (induction "end_ptr - page" arbitrary: page s rule: less_induct)
  case less
  show ?case
  proof (cases "page < end_ptr")
    case False
    then show ?thesis
      by (simp add: add_allocation_loop.simps pages_walked.simps)
  next
    case True
    obtain r s' where b: "add_allocation_body page s = (r, s')"
      by (cases "add_allocation_body page s")
    then have ps: "page_size s' = page_size s"
      by (metis add_allocation_body_page_size snd_conv)
    show ?thesis
    proof (cases r)
      case (Some e)
      with True b less.prems show ?thesis
        by (simp add: add_allocation_loop.simps [of page] pages_walked.simps [of _ page])
    next
      case None
      have "end_ptr - (page + page_size s') < end_ptr - page"
        using True less.prems ps by simp
      from less.hyps [OF this] less.prems ps
      have "add_allocation_loop (page + page_size s) end_ptr s' =
              Some (add_pages (pages_walked (page_size s) (page + page_size s) end_ptr) s')"
        by simp
      with None True b less.prems ps show ?thesis
        by (simp add: add_allocation_loop.simps [of page] pages_walked.simps [of _ page])
    qed
  qed
qed

lemma remove_allocation_loop_pages:
  "0 < page_size s \<Longrightarrow>
   remove_allocation_loop page end_ptr s =
     Some (remove_pages (pages_walked (page_size s) page end_ptr) s)"
proof (induction "end_ptr - page" arbitrary: page s rule: less_induct)
  case less
  show ?case
  proof (cases "page < end_ptr")
    case False
    then show ?thesis
      by (simp add: remove_allocation_loop.simps pages_walked.simps)
  next
    case True
    obtain r s' where b: "remove_allocation_body page s = (r, s')"
      by (cases "remove_allocation_body page s")
    then have ps: "page_size s' = page_size s"
      by (metis remove_allocation_body_page_size snd_conv)
    show ?thesis
    proof (cases r)
      case (Some e)
      with True b less.prems show ?thesis
        by (simp add: remove_allocation_loop.simps [of page] pages_walked.simps [of _ page])
    next
      case None
      have "end_ptr - (page + page_size s') < end_ptr - page"
        using True less.prems ps by simp
      from less.hyps [OF this] less.prems ps
      have "remove_allocation_loop (page + page_size s) end_ptr s' =
              Some (remove_pages (pages_walked (page_size s) (page + page_size s) end_ptr) s')"
        by simp
      with None True b less.prems ps show ?thesis
        by (simp add: remove_allocation_loop.simps [of page] pages_walked.simps [of _ page])
    qed
  qed
qed

lemma add_allocation_pages:
  "0 < page_size s \<Longrightarrow>
   add_allocation s ptr len = Some (add_pages (pages_touched s ptr len) s)"
  by (simp add: add_allocation_def pages_touched_def add_allocation_loop_pages)

lemma remove_allocation_pages:
  "0 < page_size s \<Longrightarrow>
   remove_allocation s ptr len = Some (remove_pages (pages_touched s ptr len) s)"
  by (simp add: remove_allocation_def pages_touched_def remove_allocation_loop_pages)

lemma pages_walked_lower: "p \<in> set (pages_walked ps page e) \<Longrightarrow> page \<le> p \<and> p < e"
proof (induction ps page e rule: pages_walked.induct)
  case (1 ps page e)
  then show ?case
    by (subst (asm) (2) pages_walked.simps) (auto split: if_splits)
qed

lemma pages_walked_set:
  "0 < ps \<Longrightarrow> set (pages_walked ps page e) = {p. page \<le> p \<and> p < e \<and> (p - page) mod ps = 0}"
proof (induction ps page e rule: pages_walked.induct)
  case (1 ps page e)
  show ?case
  proof (cases "page < e")
    case False
    then show ?thesis
      by (subst pages_walked.simps) auto
  next
    case True
    have ih: "set (pages_walked ps (page + ps) e) =
                {p. page + ps \<le> p \<and> p < e \<and> (p - (page + ps)) mod ps = 0}"
      using "1.IH" True "1.prems" by simp
    have "{p. page \<le> p \<and> p < e \<and> (p - page) mod ps = 0} =
          insert page {p. page + ps \<le> p \<and> p < e \<and> (p - (page + ps)) mod ps = 0}"
      (is "?L = ?R")
    proof (intro set_eqI iffI)
      fix p assume "p \<in> ?L"
      then have p: "page \<le> p" "p < e" "(p - page) mod ps = 0" by auto
      show "p \<in> ?R"
      proof (cases "p = page")
        case True then show ?thesis by simp
      next
        case False
        with p have "0 < p - page" by simp
        with p(3) have "ps \<le> p - page"
          using "1.prems" by (metis mod_less not_le less_irrefl)
        moreover from this p(3) have "(p - page - ps) mod ps = 0"
          by (metis le_mod_geq)
        moreover have "p - (page + ps) = p - page - ps"
          by simp
        ultimately have "page + ps \<le> p \<and> (p - (page + ps)) mod ps = 0"
          using p(1) by (simp only:) linarith
        then show ?thesis
          using p by simp
      qed
    next
      fix p assume "p \<in> ?R"
      then consider "p = page" | "page + ps \<le> p \<and> p < e \<and> (p - (page + ps)) mod ps = 0"
        by auto
      then show "p \<in> ?L"
      proof cases
        case 1 with True show ?thesis by simp
      next
        case 2
        then have "p - page = (p - (page + ps)) + ps" by simp
        then have "(p - page) mod ps = 0" using 2 by (metis mod_add_self2)
        with 2 show ?thesis by simp
      qed
    qed
    with ih True "1.prems" show ?thesis
      by (subst pages_walked.simps) simp
  qed
qed

lemma pages_walked_sorted: "sorted (pages_walked ps page e) \<and> distinct (pages_walked ps page e)"
proof (induction ps page e rule: pages_walked.induct)
  case (1 ps page e)
  show ?case
  proof (cases "page < e \<and> 0 < ps")
    case False
    then show ?thesis by (subst (1 2) pages_walked.simps) auto
  next
    case True
    then have "\<forall>p \<in> set (pages_walked ps (page + ps) e). page < p"
      using pages_walked_lower [of _ ps "page + ps" e] by fastforce
    with True "1.IH" show ?thesis
      by (subst (1 2) pages_walked.simps) (auto simp: less_imp_le)
  qed
qed



lemma aligned_offset:
  assumes "(p0::nat) mod ps = 0" "p0 \<le> p"
  shows "(p - p0) mod ps = 0 \<longleftrightarrow> p mod ps = 0"
proof -
  from assms(1) have d: "ps dvd p0" by (rule mod_0_imp_dvd)
  have "ps dvd (p - p0) \<longleftrightarrow> ps dvd p"
    using d assms(2) by (metis dvd_diff_nat dvd_add le_add_diff_inverse2)
  then show ?thesis
    by (simp add: dvd_eq_mod_eq_0)
qed

lemma floor_page:
  assumes "0 < (ps::nat)"
  shows "(ptr - ptr mod ps) mod ps = 0 \<and> ptr - ptr mod ps \<le> ptr \<and>
         ptr < ptr - ptr mod ps + ps"
proof -
  have "ptr mod ps \<le> ptr" "ptr mod ps < ps"
    using assms by (simp_all add: mod_less_eq_dividend)
  moreover have "(ptr - ptr mod ps) mod ps = 0"
    by (simp add: minus_mod_eq_mult_div)
  ultimately show ?thesis
    by linarith
qed


lemma pages_touched_sorted:
  "sorted (pages_touched s ptr len) \<and> distinct (pages_touched s ptr len)"
  by (simp add: pages_touched_def pages_walked_sorted)

lemma pages_touched_aligned:
  assumes "0 < page_size s" "p \<in> set (pages_touched s ptr len)"
  shows "p mod page_size s = 0"
proof -
  define ps where "ps = page_size s"
  define p0 where "p0 = ptr - ptr mod ps"
  have ps: "0 < ps"
    using assms(1) by (simp add: ps_def)
  have p0: "p0 mod ps = 0"
    using floor_page [OF ps, of ptr] by (simp add: p0_def)
  have "set (pages_touched s ptr len) =
      {p. p0 \<le> p \<and> p < ptr + len \<and> (p - p0) mod ps = 0}"
    using ps assms(1)
    by (simp only: pages_touched_def to_page_floor pages_walked_set p0_def ps_def)
  with assms(2) have "p0 \<le> p" "(p - p0) mod ps = 0"
    by simp_all
  with aligned_offset [OF p0] show ?thesis
    by (simp add: ps_def)
qed

lemma os_pages_single:
  assumes "0 < ps" "p mod ps = 0"
  shows "os_pages ps p ps = {p}"
proof -
  from assms(2) obtain q where q: "p = q * ps"
    by (metis mod_0_imp_dvd dvd_div_mult_self)
  have "q * ps + ps - Suc 0 = (ps - Suc 0) + q * ps"
    using assms(1) by linarith
  moreover have "ps - Suc 0 < ps"
    using assms(1) by simp
  ultimately have "(q * ps + ps - Suc 0) div ps = q"
    by (simp only: div_offset)
  then show ?thesis
    using assms(1) by (simp add: os_pages_def q)
qed

lemma pin_memory_ok:
  assumes "pin_memory p l os1 = (None, os2)"
  shows "calls os2 = calls os1 @ [Mlock p l] \<and>
         locked os2 = locked os1 \<union> os_pages (os_page_size os1) p l \<and>
         os_page_size os2 = os_page_size os1 \<and>
         set (outcomes os2) \<subseteq> set (outcomes os1)"
proof (cases "outcomes os1")
  case Nil
  with assms show ?thesis
    by (auto simp: pin_memory_def mlock_def Let_def)
next
  case (Cons e es)
  with assms show ?thesis
    by (cases "e = 0") (auto simp: pin_memory_def mlock_def Let_def)
qed

lemma unpin_memory_ok:
  assumes "unpin_memory p l os1 = (None, os2)"
  shows "calls os2 = calls os1 @ [Munlock p l] \<and>
         locked os2 = locked os1 - os_pages (os_page_size os1) p l \<and>
         os_page_size os2 = os_page_size os1 \<and>
         set (outcomes os2) \<subseteq> set (outcomes os1)"
proof (cases "outcomes os1")
  case Nil
  with assms show ?thesis
    by (auto simp: unpin_memory_def munlock_def Let_def)
next
  case (Cons e es)
  with assms show ?thesis
    by (cases "e = 0") (auto simp: unpin_memory_def munlock_def Let_def)
qed

lemma unpin_memory_error:
  assumes "unpin_memory p l os1 = (Some e, os2)"
  shows "(\<exists>n. e = system_error n ''unpinning memory'') \<and>
         calls os2 = calls os1 @ [Munlock p l] \<and>
         locked os2 = locked os1 \<and>
         os_page_size os2 = os_page_size os1 \<and>
         (\<exists>n \<in> set (outcomes os1). n \<noteq> 0)"
proof (cases "outcomes os1")
  case Nil
  with assms show ?thesis
    by (auto simp: unpin_memory_def munlock_def Let_def)
next
  case (Cons e es)
  with assms show ?thesis
    by (cases "e = 0") (auto simp: unpin_memory_def munlock_def Let_def)
qed

lemma pin_memory_error:
  assumes "pin_memory p l os1 = (Some e, os2)"
  shows "(\<exists>n. e = system_error n ''pinning memory'') \<and>
         calls os2 = calls os1 @ [Mlock p l] \<and>
         locked os2 = locked os1 \<and>
         os_page_size os2 = os_page_size os1 \<and>
         (\<exists>n \<in> set (outcomes os1). n \<noteq> 0)"
proof (cases "outcomes os1")
  case Nil
  with assms show ?thesis
    by (auto simp: pin_memory_def mlock_def Let_def)
next
  case (Cons e es)
  with assms show ?thesis
    by (cases "e = 0") (auto simp: pin_memory_def mlock_def Let_def)
qed

lemma add_allocation_body_ok:
  assumes "add_allocation_body p s = (None, s')"
  shows "page_ref_count s' =
           (page_ref_count s)(p \<mapsto> (case page_ref_count s p of None \<Rightarrow> 1 | Some c \<Rightarrow> c + 1))"
    and "calls (os s') =
           calls (os s) @ (if page_ref_count s p = None then [Mlock p (page_size s)] else [])"
    and "locked (os s') =
           locked (os s) \<union>
           (if page_ref_count s p = None
            then os_pages (os_page_size (os s)) p (page_size s) else {})"
    and "page_size s' = page_size s"
    and "os_page_size (os s') = os_page_size (os s)"
    and "mutex_locked s' = mutex_locked s"
    and "set (outcomes (os s')) \<subseteq> set (outcomes (os s))"
proof -
  have "page_ref_count s' =
           (page_ref_count s)(p \<mapsto> (case page_ref_count s p of None \<Rightarrow> 1 | Some c \<Rightarrow> c + 1)) \<and>
        calls (os s') =
           calls (os s) @ (if page_ref_count s p = None then [Mlock p (page_size s)] else []) \<and>
        locked (os s') =
           locked (os s) \<union>
           (if page_ref_count s p = None
            then os_pages (os_page_size (os s)) p (page_size s) else {}) \<and>
        page_size s' = page_size s \<and>
        os_page_size (os s') = os_page_size (os s) \<and>
        mutex_locked s' = mutex_locked s \<and>
        set (outcomes (os s')) \<subseteq> set (outcomes (os s))"
  proof (cases "page_ref_count s p")
    case (Some c)
    with assms have "s' = s\<lparr>page_ref_count := (page_ref_count s)(p \<mapsto> c + 1)\<rparr>"
      by (simp add: add_allocation_body_def)
    with Some show ?thesis
      by simp
  next
    case None
    obtain r os2 where pin: "pin_memory p (page_size s) (os s) = (r, os2)"
      by (cases "pin_memory p (page_size s) (os s)")
    with assms None have r: "r = None"
      and s': "s' = s\<lparr>page_ref_count := (page_ref_count s)(p \<mapsto> 1), os := os2\<rparr>"
      by (simp_all add: add_allocation_body_def Let_def)
    from pin_memory_ok [OF pin [unfolded r]] None show ?thesis
      by (simp add: s')
  qed
  then show "page_ref_count s' =
           (page_ref_count s)(p \<mapsto> (case page_ref_count s p of None \<Rightarrow> 1 | Some c \<Rightarrow> c + 1))"
    and "calls (os s') =
           calls (os s) @ (if page_ref_count s p = None then [Mlock p (page_size s)] else [])"
    and "locked (os s') =
           locked (os s) \<union>
           (if page_ref_count s p = None
            then os_pages (os_page_size (os s)) p (page_size s) else {})"
    and "page_size s' = page_size s"
    and "os_page_size (os s') = os_page_size (os s)"
    and "mutex_locked s' = mutex_locked s"
    and "set (outcomes (os s')) \<subseteq> set (outcomes (os s))"
    by blast+
qed


lemma remove_allocation_body_ok:
  assumes "remove_allocation_body p s = (None, s')"
  shows "\<exists>c. page_ref_count s p = Some c \<and>
           page_ref_count s' =
             (if c = 1 then (page_ref_count s)(p := None) else (page_ref_count s)(p \<mapsto> c - 1)) \<and>
           calls (os s') = calls (os s) @ (if c = 1 then [Munlock p (page_size s)] else []) \<and>
           locked (os s') =
             locked (os s) - (if c = 1 then os_pages (os_page_size (os s)) p (page_size s) else {})"
    and "page_size s' = page_size s"
    and "os_page_size (os s') = os_page_size (os s)"
    and "mutex_locked s' = mutex_locked s"
    and "set (outcomes (os s')) \<subseteq> set (outcomes (os s))"
proof -
  from assms obtain c where c: "page_ref_count s p = Some c"
    by (cases "page_ref_count s p") (simp_all add: remove_allocation_body_def)
  have z: "c - 1 = 0 \<longleftrightarrow> c = 1"
    by simp
  have "page_ref_count s' =
             (if c = 1 then (page_ref_count s)(p := None) else (page_ref_count s)(p \<mapsto> c - 1)) \<and>
        calls (os s') = calls (os s) @ (if c = 1 then [Munlock p (page_size s)] else []) \<and>
        locked (os s') =
             locked (os s) - (if c = 1 then os_pages (os_page_size (os s)) p (page_size s) else {}) \<and>
        page_size s' = page_size s \<and>
        os_page_size (os s') = os_page_size (os s) \<and>
        mutex_locked s' = mutex_locked s \<and>
        set (outcomes (os s')) \<subseteq> set (outcomes (os s))"
  proof (cases "c = 1")
    case False
    with assms c z have "s' = s\<lparr>page_ref_count := (page_ref_count s)(p \<mapsto> c - 1)\<rparr>"
      by (simp add: remove_allocation_body_def Let_def)
    with False show ?thesis
      by simp
  next
    case True
    obtain r os2 where unpin: "unpin_memory p (page_size s) (os s) = (r, os2)"
      by (cases "unpin_memory p (page_size s) (os s)")
    with assms c True have r: "r = None"
      and s': "s' = s\<lparr>page_ref_count := (page_ref_count s)(p := None), os := os2\<rparr>"
      by (auto simp add: remove_allocation_body_def Let_def split: option.splits)
    from unpin_memory_ok [OF unpin [unfolded r]] True show ?thesis
      by (simp add: s')
  qed
  with c show "\<exists>c. page_ref_count s p = Some c \<and>
           page_ref_count s' =
             (if c = 1 then (page_ref_count s)(p := None) else (page_ref_count s)(p \<mapsto> c - 1)) \<and>
           calls (os s') = calls (os s) @ (if c = 1 then [Munlock p (page_size s)] else []) \<and>
           locked (os s') =
             locked (os s) - (if c = 1 then os_pages (os_page_size (os s)) p (page_size s) else {})"
    and "page_size s' = page_size s"
    and "os_page_size (os s') = os_page_size (os s)"
    and "mutex_locked s' = mutex_locked s"
    and "set (outcomes (os s')) \<subseteq> set (outcomes (os s))"
    by blast+
qed


lemma remove_allocation_body_error:
  assumes "remove_allocation_body p s = (Some e, s')"
  shows "(page_ref_count s p = None \<and> s' = s \<and>
          e = runtime_error ''Releasing memory not tracked by no_swap_allocator'') \<or>
         (page_ref_count s p = Some 1 \<and> (\<exists>n. e = system_error n ''unpinning memory'') \<and>
          page_ref_count s' = (page_ref_count s)(p \<mapsto> 0) \<and>
          locked (os s') = locked (os s) \<and>
          (\<exists>n \<in> set (outcomes (os s)). n \<noteq> 0))"
proof (cases "page_ref_count s p")
  case None
  with assms show ?thesis
    by (simp add: remove_allocation_body_def)
next
  case (Some c)
  have z: "c - 1 = 0 \<longleftrightarrow> c = 1"
    by simp
  show ?thesis
  proof (cases "c = 1")
    case False
    with assms Some z show ?thesis
      by (simp add: remove_allocation_body_def Let_def)
  next
    case True
    obtain r os2 where unpin: "unpin_memory p (page_size s) (os s) = (r, os2)"
      by (cases "unpin_memory p (page_size s) (os s)")
    with assms Some True have r: "r = Some e"
      and s': "s' = s\<lparr>page_ref_count := (page_ref_count s)(p \<mapsto> 0), os := os2\<rparr>"
      by (auto simp add: remove_allocation_body_def Let_def split: option.splits)
    from unpin_memory_error [OF unpin [unfolded r]] Some True show ?thesis
      by (simp add: s')
  qed
qed

lemma remove_allocation_body_runtime_error:
  assumes "remove_allocation_body p s = (Some (runtime_error m), s')"
  shows "page_ref_count s p = None \<and> s' = s \<and>
         m = ''Releasing memory not tracked by no_swap_allocator''"
  using remove_allocation_body_error [OF assms] by auto

lemma add_allocation_body_error:
  assumes "add_allocation_body p s = (Some e, s')"
  shows "page_ref_count s p = None \<and> (\<exists>n. e = system_error n ''pinning memory'') \<and>
         page_ref_count s' = (page_ref_count s)(p \<mapsto> 1) \<and>
         locked (os s') = locked (os s) \<and>
         (\<exists>n \<in> set (outcomes (os s)). n \<noteq> 0)"
proof (cases "page_ref_count s p")
  case (Some c)
  with assms show ?thesis
    by (simp add: add_allocation_body_def)
next
  case None
  obtain r os2 where pin: "pin_memory p (page_size s) (os s) = (r, os2)"
    by (cases "pin_memory p (page_size s) (os s)")
  with assms None have r: "r = Some e"
    and s': "s' = s\<lparr>page_ref_count := (page_ref_count s)(p \<mapsto> 1), os := os2\<rparr>"
    by (simp_all add: add_allocation_body_def Let_def)
  from pin_memory_error [OF pin [unfolded r]] None show ?thesis
    by (simp add: s')
qed

lemma add_pages_Cons_ok:
  assumes "add_pages (p # ps) s = (None, s')"
  obtains s1 where "add_allocation_body p s = (None, s1)" "add_pages ps s1 = (None, s')"
  using assms by (auto split: prod.splits option.splits)

lemma remove_pages_Cons_ok:
  assumes "remove_pages (p # ps) s = (None, s')"
  obtains s1 where "remove_allocation_body p s = (None, s1)" "remove_pages ps s1 = (None, s')"
  using assms by (auto split: prod.splits option.splits)

lemma add_pages_ok:
  assumes "distinct pages" "add_pages pages s = (None, s')"
  shows "page_ref_count s' =
           (\<lambda>p. if p \<in> set pages then Some (incremented (page_ref_count s p))
                else page_ref_count s p) \<and>
         calls (os s') =
           calls (os s) @
           map (\<lambda>p. Mlock p (page_size s)) (filter (\<lambda>p. page_ref_count s p = None) pages) \<and>
         locked (os s') =
           locked (os s) \<union>
           (\<Union>p \<in> {p \<in> set pages. page_ref_count s p = None}.
              os_pages (os_page_size (os s)) p (page_size s)) \<and>
         page_size s' = page_size s \<and>
         os_page_size (os s') = os_page_size (os s) \<and>
         mutex_locked s' = mutex_locked s"
  using assms
proof (induction pages arbitrary: s)
  case Nil
  then show ?case by simp
next
  case (Cons p ps)
  from Cons.prems(2) obtain s1 where
    b: "add_allocation_body p s = (None, s1)" and r: "add_pages ps s1 = (None, s')"
    by (rule add_pages_Cons_ok)
  note b1 = add_allocation_body_ok [OF b]
  from Cons.prems(1) have d: "distinct ps" and np: "p \<notin> set ps"
    by simp_all
  note ih = Cons.IH [OF d r]
  have same: "\<And>q. q \<in> set ps \<Longrightarrow> page_ref_count s1 q = page_ref_count s q"
    using np by (auto simp: b1(1))
  then have f: "filter (\<lambda>q. page_ref_count s1 q = None) ps =
                filter (\<lambda>q. page_ref_count s q = None) ps"
    by (simp cong: filter_cong)
  have u: "{q \<in> set ps. page_ref_count s1 q = None} = {q \<in> set ps. page_ref_count s q = None}"
    using same by auto
  have 1: "page_ref_count s' =
           (\<lambda>q. if q \<in> set (p # ps) then Some (incremented (page_ref_count s q))
                else page_ref_count s q)"
  proof
    fix q
    show "page_ref_count s' q =
          (if q \<in> set (p # ps) then Some (incremented (page_ref_count s q))
           else page_ref_count s q)"
      using ih np by (auto simp: b1(1) incremented_def)
  qed
  have 2: "calls (os s') = calls (os s) @
           map (\<lambda>q. Mlock q (page_size s)) (filter (\<lambda>q. page_ref_count s q = None) (p # ps))"
  proof -
    from ih have "calls (os s') = calls (os s1) @
        map (\<lambda>q. Mlock q (page_size s1)) (filter (\<lambda>q. page_ref_count s1 q = None) ps)"
      by blast
    then show ?thesis
      by (simp only: f b1(2) b1(4)) simp
  qed
  have 3: "locked (os s') = locked (os s) \<union>
           (\<Union>q \<in> {q \<in> set (p # ps). page_ref_count s q = None}.
              os_pages (os_page_size (os s)) q (page_size s))"
  proof -
    from ih have "locked (os s') = locked (os s1) \<union>
        (\<Union>q \<in> {q \<in> set ps. page_ref_count s1 q = None}.
           os_pages (os_page_size (os s1)) q (page_size s1))"
      by blast
    then show ?thesis
      by (simp only: u b1(3) b1(4) b1(5)) auto
  qed
  from 1 2 3 ih show ?case
    by (simp only: b1 simp_thms)
qed

lemma remove_pages_ok:
  assumes "distinct pages" "remove_pages pages s = (None, s')"
  shows "page_ref_count s' =
           (\<lambda>p. if p \<in> set pages then decremented (page_ref_count s p)
                else page_ref_count s p) \<and>
         (\<forall>p \<in> set pages. page_ref_count s p \<noteq> None) \<and>
         calls (os s') =
           calls (os s) @
           map (\<lambda>p. Munlock p (page_size s)) (filter (\<lambda>p. page_ref_count s p = Some 1) pages) \<and>
         locked (os s') =
           locked (os s) -
           (\<Union>p \<in> {p \<in> set pages. page_ref_count s p = Some 1}.
              os_pages (os_page_size (os s)) p (page_size s)) \<and>
         page_size s' = page_size s \<and>
         os_page_size (os s') = os_page_size (os s) \<and>
         mutex_locked s' = mutex_locked s"
  using assms
proof (induction pages arbitrary: s)
  case Nil
  then show ?case by simp
next
  case (Cons p ps)
  from Cons.prems(2) obtain s1 where
    b: "remove_allocation_body p s = (None, s1)" and r: "remove_pages ps s1 = (None, s')"
    by (rule remove_pages_Cons_ok)
  note b1 = remove_allocation_body_ok [OF b]
  from b1(1) obtain c where c: "page_ref_count s p = Some c"
    and m1: "page_ref_count s1 =
      (if c = 1 then (page_ref_count s)(p := None) else (page_ref_count s)(p \<mapsto> c - 1))"
    and c1: "calls (os s1) = calls (os s) @ (if c = 1 then [Munlock p (page_size s)] else [])"
    and l1: "locked (os s1) =
      locked (os s) - (if c = 1 then os_pages (os_page_size (os s)) p (page_size s) else {})"
    by blast
  from Cons.prems(1) have d: "distinct ps" and np: "p \<notin> set ps"
    by simp_all
  note ih = Cons.IH [OF d r]
  have same: "\<And>q. q \<in> set ps \<Longrightarrow> page_ref_count s1 q = page_ref_count s q"
    using np by (auto simp: m1)
  then have f: "filter (\<lambda>q. page_ref_count s1 q = Some 1) ps =
                filter (\<lambda>q. page_ref_count s q = Some 1) ps"
    by (simp cong: filter_cong)
  have u: "{q \<in> set ps. page_ref_count s1 q = Some 1} =
           {q \<in> set ps. page_ref_count s q = Some 1}"
    using same by auto
  have 1: "page_ref_count s' =
           (\<lambda>q. if q \<in> set (p # ps) then decremented (page_ref_count s q)
                else page_ref_count s q)"
  proof
    fix q
    show "page_ref_count s' q =
          (if q \<in> set (p # ps) then decremented (page_ref_count s q)
           else page_ref_count s q)"
      using ih np c by (auto simp: m1 decremented_def)
  qed
  have 2: "\<forall>q \<in> set (p # ps). page_ref_count s q \<noteq> None"
    using ih same c by auto
  have 3: "calls (os s') = calls (os s) @
           map (\<lambda>q. Munlock q (page_size s)) (filter (\<lambda>q. page_ref_count s q = Some 1) (p # ps))"
  proof -
    from ih have "calls (os s') = calls (os s1) @
        map (\<lambda>q. Munlock q (page_size s1)) (filter (\<lambda>q. page_ref_count s1 q = Some 1) ps)"
      by blast
    then show ?thesis
      using c by (simp only: f c1 b1(2)) simp
  qed
  have 4: "locked (os s') = locked (os s) -
           (\<Union>q \<in> {q \<in> set (p # ps). page_ref_count s q = Some 1}.
              os_pages (os_page_size (os s)) q (page_size s))"
  proof -
    from ih have "locked (os s') = locked (os s1) -
        (\<Union>q \<in> {q \<in> set ps. page_ref_count s1 q = Some 1}.
           os_pages (os_page_size (os s1)) q (page_size s1))"
      by blast
    then show ?thesis
      using c by (simp only: u l1 b1(2) b1(3)) auto
  qed
  from 1 2 3 4 ih show ?case
    by (simp only: b1 simp_thms)
qed


section \<open>Evaluated examples\<close>

lemma new_state_os_4096:
  "new_state os_4096 =
     \<lparr>page_ref_count = Map.empty, mutex_locked = False, page_size = 4096, os = os_4096\<rparr>"
  by (simp add: new_state_def get_page_size_def os_4096_def)

lemma add_example:
  "add_allocation (new_state os_4096) 100 5000 =
     Some (None,
       \<lparr>page_ref_count = [0 \<mapsto> 1, 4096 \<mapsto> 1], mutex_locked = False, page_size = 4096,
        os = \<lparr>os_page_size = 4096, locked = {0, 4096},
               calls = [Mlock 0 4096, Mlock 4096 4096], errno = 0, outcomes = []\<rparr>\<rparr>)"
proof -
  let ?s = "\<lparr>page_ref_count = Map.empty, mutex_locked = False, page_size = 4096,
             os = os_4096\<rparr>"
  have "add_allocation ?s 100 5000 = Some (add_pages (pages_touched ?s 100 5000) ?s)"
    by (rule add_allocation_pages) simp
  moreover have "pages_touched ?s 100 5000 = [0, 4096]"
    by (simp add: pages_touched_def to_page_floor pages_walked.simps)
  moreover have "add_pages [0, 4096] ?s =
      (None,
       \<lparr>page_ref_count = [0 \<mapsto> 1, 4096 \<mapsto> 1], mutex_locked = False, page_size = 4096,
        os = \<lparr>os_page_size = 4096, locked = {0, 4096},
               calls = [Mlock 0 4096, Mlock 4096 4096], errno = 0, outcomes = []\<rparr>\<rparr>)"
    by (simp add: add_allocation_body_def pin_memory_def mlock_def os_pages_def os_4096_def
        insert_commute)
  ultimately show ?thesis
    by (simp add: new_state_os_4096)
qed


lemma pages_touched_page_size:
  "page_size s1 = page_size s \<Longrightarrow> pages_touched s1 ptr len = pages_touched s ptr len"
  by (simp add: pages_touched_def to_page_def Let_def)

lemma remove_pages_untracked_prefix:
  assumes "remove_pages pages s = (Some (runtime_error m), s')"
  shows "\<exists>before p after. pages = before @ p # after \<and>
           remove_pages before s = (None, s') \<and> page_ref_count s' p = None \<and>
           m = ''Releasing memory not tracked by no_swap_allocator''"
  using assms
proof (induction pages arbitrary: s)
  case Nil
  then show ?case by simp
next
  case (Cons a pages)
  obtain r s1 where b: "remove_allocation_body a s = (r, s1)"
    by (cases "remove_allocation_body a s")
  show ?case
  proof (cases r)
    case None
    with b Cons.prems have "remove_pages pages s1 = (Some (runtime_error m), s')"
      by simp
    from Cons.IH [OF this] obtain before p after where
      "pages = before @ p # after" "remove_pages before s1 = (None, s')"
      "page_ref_count s' p = None" "m = ''Releasing memory not tracked by no_swap_allocator''"
      by blast
    with b None have "a # pages = (a # before) @ p # after \<and>
        remove_pages (a # before) s = (None, s') \<and> page_ref_count s' p = None \<and>
        m = ''Releasing memory not tracked by no_swap_allocator''"
      by simp
    then show ?thesis
      by blast
  next
    case (Some e)
    with b Cons.prems have e: "e = runtime_error m" "s1 = s'"
      by simp_all
    from remove_allocation_body_runtime_error [OF b [unfolded Some e]]
    have "a # pages = [] @ a # pages \<and> remove_pages [] s = (None, s') \<and>
        page_ref_count s' a = None \<and>
        m = ''Releasing memory not tracked by no_swap_allocator''"
      by simp
    then show ?thesis
      by blast
  qed
qed


lemma pages_touched_examples:
  "pages_touched tracked_two_pages 100 5000 = [0, 4096]"
  "pages_touched tracked_page_0 0 8192 = [0, 4096]"
  "pages_touched tracked_page_0 0 4096 = [0]"
  "pages_touched tracked_page_0_failing 0 8192 = [0, 4096]"
  by (simp_all add: pages_touched_def to_page_floor pages_walked.simps tracked_two_pages_def
      tracked_page_0_def tracked_page_0_failing_def)

lemma remove_example:
  "remove_allocation tracked_two_pages 100 5000 =
     Some (None,
       \<lparr>page_ref_count = Map.empty, mutex_locked = False, page_size = 4096,
        os = \<lparr>os_page_size = 4096, locked = {},
               calls = [Mlock 0 4096, Mlock 4096 4096, Munlock 0 4096, Munlock 4096 4096],
               errno = 0, outcomes = []\<rparr>\<rparr>)"
proof -
  have "remove_allocation tracked_two_pages 100 5000 =
      Some (remove_pages (pages_touched tracked_two_pages 100 5000) tracked_two_pages)"
    by (rule remove_allocation_pages) (simp add: tracked_two_pages_def)
  then show ?thesis
    by (simp only: pages_touched_examples)
       (simp add: tracked_two_pages_def remove_allocation_body_def unpin_memory_def
          munlock_def os_pages_def)
qed

lemma remove_untracked_example:
  "remove_allocation tracked_page_0 0 8192 =
     Some (Some (runtime_error ''Releasing memory not tracked by no_swap_allocator''),
       \<lparr>page_ref_count = Map.empty, mutex_locked = False, page_size = 4096,
        os = \<lparr>os_page_size = 4096, locked = {},
               calls = [Mlock 0 4096, Munlock 0 4096], errno = 0, outcomes = []\<rparr>\<rparr>)"
proof -
  have "remove_allocation tracked_page_0 0 8192 =
      Some (remove_pages (pages_touched tracked_page_0 0 8192) tracked_page_0)"
    by (rule remove_allocation_pages) (simp add: tracked_page_0_def)
  then show ?thesis
    by (simp only: pages_touched_examples)
       (simp add: tracked_page_0_def remove_allocation_body_def unpin_memory_def
          munlock_def os_pages_def)
qed

lemma remove_one_page_example:
  "remove_allocation tracked_page_0 0 4096 =
     Some (None,
       \<lparr>page_ref_count = Map.empty, mutex_locked = False, page_size = 4096,
        os = \<lparr>os_page_size = 4096, locked = {},
               calls = [Mlock 0 4096, Munlock 0 4096], errno = 0, outcomes = []\<rparr>\<rparr>)"
proof -
  have "remove_allocation tracked_page_0 0 4096 =
      Some (remove_pages (pages_touched tracked_page_0 0 4096) tracked_page_0)"
    by (rule remove_allocation_pages) (simp add: tracked_page_0_def)
  then show ?thesis
    by (simp only: pages_touched_examples)
       (simp add: tracked_page_0_def remove_allocation_body_def unpin_memory_def
          munlock_def os_pages_def)
qed


section \<open>Preservation of the invariant\<close>

lemma one_le_word_iff: "1 \<le> (c :: 32 word) \<longleftrightarrow> c \<noteq> 0"
  by (simp add: word_le_nat_alt unat_gt_0 [symmetric] Suc_le_eq)

lemma tracker_inv_iff:
  "tracker_inv s \<longleftrightarrow>
     (\<forall>p. (\<forall>c. page_ref_count s p = Some c \<longrightarrow> c \<noteq> 0 \<and> p \<in> locked (os s)) \<and>
          (page_ref_count s p = None \<longrightarrow> p \<notin> locked (os s)))"
  by (auto simp: tracker_inv_def one_le_word_iff split: option.splits)

lemma add_allocation_body_ok_inv:
  assumes "tracker_ok s" "p mod page_size s = 0" "page_ref_count s p \<noteq> Some (- 1)"
    and "add_allocation_body p s = (None, s')"
  shows "tracker_ok s'"
proof -
  note eff = add_allocation_body_ok [OF assms(4)]
  from assms(1) have inv: "tracker_inv s" and ps: "0 < page_size s"
    and eq: "os_page_size (os s) = page_size s"
    by (simp_all add: tracker_ok_def)
  have single: "os_pages (os_page_size (os s)) p (page_size s) = {p}"
    using os_pages_single [OF ps assms(2)] by (simp add: eq)
  have "tracker_inv s'"
  proof (cases "page_ref_count s p")
    case None
    with inv show ?thesis
      by (auto simp: tracker_inv_iff eff(1) eff(3) single)
  next
    case (Some c)
    with assms(3) have "c + 1 \<noteq> 0"
      by (metis add.commute add_eq_0_iff)
    with inv Some show ?thesis
      by (auto simp: tracker_inv_iff eff(1) eff(3))
  qed
  with ps eq show ?thesis
    by (simp add: tracker_ok_def eff(4) eff(5))
qed

lemma remove_allocation_body_ok_inv:
  assumes "tracker_ok s" "p mod page_size s = 0"
    and "remove_allocation_body p s = (None, s')"
  shows "tracker_ok s'"
proof -
  note eff = remove_allocation_body_ok [OF assms(3)]
  from assms(1) have inv: "tracker_inv s" and ps: "0 < page_size s"
    and eq: "os_page_size (os s) = page_size s"
    by (simp_all add: tracker_ok_def)
  have single: "os_pages (os_page_size (os s)) p (page_size s) = {p}"
    using os_pages_single [OF ps assms(2)] by (simp add: eq)
  from eff(1) obtain c where c: "page_ref_count s p = Some c"
    and m: "page_ref_count s' =
      (if c = 1 then (page_ref_count s)(p := None) else (page_ref_count s)(p \<mapsto> c - 1))"
    and l: "locked (os s') =
      locked (os s) - (if c = 1 then os_pages (os_page_size (os s)) p (page_size s) else {})"
    by blast
  have "tracker_inv s'"
  proof (cases "c = 1")
    case True
    with inv show ?thesis
      by (auto simp: tracker_inv_iff m l single)
  next
    case False
    then have "c - 1 \<noteq> 0"
      by simp
    with inv c False show ?thesis
      by (auto simp: tracker_inv_iff m l)
  qed
  with ps eq show ?thesis
    by (simp add: tracker_ok_def eff(2) eff(3))
qed

lemma add_pages_error:
  assumes "add_pages pages s = (Some e, s')"
  shows "\<exists>n. e = system_error n ''pinning memory''"
  using assms
proof (induction pages arbitrary: s)
  case Nil
  then show ?case by simp
next
  case (Cons a pages)
  obtain r s1 where b: "add_allocation_body a s = (r, s1)"
    by (cases "add_allocation_body a s")
  show ?case
  proof (cases r)
    case None
    with b Cons show ?thesis by simp
  next
    case (Some e')
    with b Cons.prems have "e' = e" by simp
    with add_allocation_body_error [OF b [unfolded Some]] show ?thesis by blast
  qed
qed

lemma remove_pages_error:
  assumes "remove_pages pages s = (Some e, s')"
  shows "(\<exists>n m. e = system_error n m) \<or> (\<exists>m. e = runtime_error m)"
  using assms
proof (induction pages arbitrary: s)
  case Nil
  then show ?case by simp
next
  case (Cons a pages)
  obtain r s1 where b: "remove_allocation_body a s = (r, s1)"
    by (cases "remove_allocation_body a s")
  show ?case
  proof (cases r)
    case None
    with b Cons show ?thesis by simp
  next
    case (Some e')
    with b Cons.prems have "e' = e" by simp
    with remove_allocation_body_error [OF b [unfolded Some]] show ?thesis by blast
  qed
qed

lemma add_pages_ok_inv:
  assumes "tracker_ok s" "distinct pages" "\<forall>p \<in> set pages. p mod page_size s = 0"
    and "\<forall>p \<in> set pages. page_ref_count s p \<noteq> Some (- 1)"
    and "add_pages pages s = (None, s')"
  shows "tracker_ok s'"
  using assms
proof (induction pages arbitrary: s)
  case Nil
  then show ?case by simp
next
  case (Cons a pages)
  from Cons.prems(5) obtain s1 where
    b: "add_allocation_body a s = (None, s1)" and r: "add_pages pages s1 = (None, s')"
    by (rule add_pages_Cons_ok)
  note eff = add_allocation_body_ok [OF b]
  from Cons.prems have ok1: "tracker_ok s1"
    by (intro add_allocation_body_ok_inv [OF _ _ _ b]) simp_all
  from Cons.prems(2) have d: "distinct pages" and na: "a \<notin> set pages"
    by simp_all
  have al: "\<forall>p \<in> set pages. p mod page_size s1 = 0"
    using Cons.prems(3) by (simp add: eff(4))
  have no: "\<forall>p \<in> set pages. page_ref_count s1 p \<noteq> Some (- 1)"
    using Cons.prems(4) na by (auto simp: eff(1))
  from Cons.IH [OF ok1 d al no r] show ?case .
qed

lemma remove_pages_ok_inv:
  assumes "tracker_ok s" "\<forall>p \<in> set pages. p mod page_size s = 0"
    and "remove_pages pages s = (None, s')"
  shows "tracker_ok s'"
  using assms
proof (induction pages arbitrary: s)
  case Nil
  then show ?case by simp
next
  case (Cons a pages)
  from Cons.prems(3) obtain s1 where
    b: "remove_allocation_body a s = (None, s1)" and r: "remove_pages pages s1 = (None, s')"
    by (rule remove_pages_Cons_ok)
  note eff = remove_allocation_body_ok [OF b]
  from Cons.prems have ok1: "tracker_ok s1"
    by (intro remove_allocation_body_ok_inv [OF _ _ b]) simp_all
  have al: "\<forall>p \<in> set pages. p mod page_size s1 = 0"
    using Cons.prems(2) by (simp add: eff(2))
  from Cons.IH [OF ok1 al r] show ?case .
qed

lemma call_preserves_tracker_ok:
  assumes "tracker_ok s" "call c s = Some (r, s')" "\<not> os_failure r" "\<not> count_overflow c s"
  shows "tracker_ok s'"
proof -
  from assms(1) have ps: "0 < page_size s"
    by (simp add: tracker_ok_def)
  show ?thesis
  proof (cases c)
    case (Add ptr len)
    let ?pages = "pages_touched s ptr len"
    from assms(2) Add have run: "add_pages ?pages s = (r, s')"
      by (simp add: add_allocation_pages [OF ps])
    have "r = None"
    proof (cases r)
      case (Some e)
      with add_pages_error [OF run [unfolded Some]] assms(3) show ?thesis
        by auto
    qed simp
    with run have run': "add_pages ?pages s = (None, s')"
      by simp
    have d: "distinct ?pages"
      using pages_touched_sorted by blast
    have al: "\<forall>p \<in> set ?pages. p mod page_size s = 0"
      using pages_touched_aligned [OF ps] by blast
    have no: "\<forall>p \<in> set ?pages. page_ref_count s p \<noteq> Some (- 1)"
      using assms(4) Add by simp
    from add_pages_ok_inv [OF assms(1) d al no run'] show ?thesis .
  next
    case (Remove ptr len)
    let ?pages = "pages_touched s ptr len"
    from assms(2) Remove have run: "remove_pages ?pages s = (r, s')"
      by (simp add: remove_allocation_pages [OF ps])
    have al: "\<forall>p \<in> set ?pages. p mod page_size s = 0"
      using pages_touched_aligned [OF ps] by blast
    show ?thesis
    proof (cases r)
      case None
      with run have "remove_pages ?pages s = (None, s')"
        by simp
      from remove_pages_ok_inv [OF assms(1) al this] show ?thesis .
    next
      case (Some e)
      with remove_pages_error [OF run [unfolded Some]] assms(3)
      obtain m where e: "e = runtime_error m"
        by auto
      from remove_pages_untracked_prefix [OF run [unfolded Some e]]
      obtain before p after where
        split: "?pages = before @ p # after" and pre: "remove_pages before s = (None, s')"
        by blast
      from al split have "\<forall>p \<in> set before. p mod page_size s = 0"
        by simp
      from remove_pages_ok_inv [OF assms(1) this pre] show ?thesis .
    qed
  qed
qed

lemma new_state_tracker_ok:
  assumes "0 < os_page_size os0" "locked os0 = {}"
  shows "tracker_ok (new_state os0)"
  using assms
  by (simp add: tracker_ok_def tracker_inv_def new_state_def get_page_size_def)

lemma add_pin_failure_example:
  "add_allocation (new_state os_4096_failing) 0 1 =
     Some (Some (system_error 12 ''pinning memory''), registered_not_locked)"
proof -
  let ?s = "\<lparr>page_ref_count = Map.empty, mutex_locked = False, page_size = 4096,
             os = os_4096_failing\<rparr>"
  have s: "new_state os_4096_failing = ?s"
    by (simp add: new_state_def get_page_size_def os_4096_failing_def)
  have "add_allocation ?s 0 1 = Some (add_pages (pages_touched ?s 0 1) ?s)"
    by (rule add_allocation_pages) simp
  moreover have "pages_touched ?s 0 1 = [0]"
    by (simp add: pages_touched_def to_page_floor pages_walked.simps)
  moreover have "add_pages [0] ?s =
      (Some (system_error 12 ''pinning memory''), registered_not_locked)"
    by (simp add: add_allocation_body_def pin_memory_def mlock_def os_pages_def
        os_4096_failing_def registered_not_locked_def)
  ultimately show ?thesis
    by (simp add: s)
qed

section \<open>The properties\<close>






text \<open>
  Claim C7. On a tracker with an empty map, \<open>add_allocation(p, l)\<close> followed by
  \<open>remove_allocation(p, l)\<close>, both returning normally, leaves no page entry in the
  page-to-refcount map.
\<close>

theorem add_then_remove_restores_empty:
  assumes "0 < page_size s" and "page_ref_count s = Map.empty"
    and "add_allocation s p l = Some (None, s1)"
    and "remove_allocation s1 p l = Some (None, s2)"
  shows "page_ref_count s2 = Map.empty"
proof -
  let ?pages = "pages_touched s p l"
  have d: "distinct ?pages"
    using pages_touched_sorted by blast
  have a: "add_pages ?pages s = (None, s1)"
    using assms(3) add_allocation_pages [OF assms(1), of p l] by simp
  note a_eff = add_pages_ok [OF d a]
  have ps1: "page_size s1 = page_size s"
    using a_eff by blast
  have r: "remove_pages ?pages s1 = (None, s2)"
    using assms(4) remove_allocation_pages [of s1 p l] assms(1)
    by (simp add: ps1 pages_touched_page_size [OF ps1])
  note r_eff = remove_pages_ok [OF d r]
  from a_eff have "page_ref_count s1 =
      (\<lambda>q. if q \<in> set ?pages then Some (incremented (page_ref_count s q))
           else page_ref_count s q)"
    by blast
  moreover have "page_ref_count s q = None" for q
    by (simp add: assms(2))
  ultimately have m1: "page_ref_count s1 = (\<lambda>q. if q \<in> set ?pages then Some 1 else None)"
    by (simp add: incremented_def cong: if_cong)
  from r_eff have "page_ref_count s2 =
      (\<lambda>q. if q \<in> set ?pages then decremented (page_ref_count s1 q)
           else page_ref_count s1 q)"
    by blast
  then have "page_ref_count s2 q = None" for q
    by (simp add: m1 decremented_def)
  then show ?thesis
    by (simp add: fun_eq_iff)
qed

theorem add_then_remove_restores_empty_witness:
  "add_allocation (new_state os_4096) 100 5000 = Some (None, tracked_two_pages) \<and>
   remove_allocation tracked_two_pages 100 5000 =
     Some (None,
       \<lparr>page_ref_count = Map.empty, mutex_locked = False, page_size = 4096,
        os = \<lparr>os_page_size = 4096, locked = {},
               calls = [Mlock 0 4096, Mlock 4096 4096, Munlock 0 4096, Munlock 4096 4096],
               errno = 0, outcomes = []\<rparr>\<rparr>) \<and>
   page_ref_count
     \<lparr>page_ref_count = Map.empty, mutex_locked = False, page_size = 4096,
        os = \<lparr>os_page_size = 4096, locked = {},
               calls = [Mlock 0 4096, Mlock 4096 4096, Munlock 0 4096, Munlock 4096 4096],
               errno = 0, outcomes = []\<rparr>\<rparr> = Map.empty"
proof -
  have ps: "0 < page_size (new_state os_4096)"
    by (simp add: new_state_os_4096)
  have e: "page_ref_count (new_state os_4096) = Map.empty"
    by (simp add: new_state_os_4096)
  have a: "add_allocation (new_state os_4096) 100 5000 = Some (None, tracked_two_pages)"
    by (simp add: add_example tracked_two_pages_def)
  note r = remove_example
  from add_then_remove_restores_empty [OF ps e a r] a r show ?thesis
    by blast
qed





text \<open>
  Claim C10. When \<open>remove_allocation\<close> fails on a page without an entry, the state it
  leaves is the state after the walk over the pages before that page: each of them had
  an entry, has been decremented, and has been unpinned and erased where its count was
  1; nothing is rolled back.
\<close>

theorem remove_allocation_not_atomic:
  assumes "0 < page_size s"
    and "remove_allocation s ptr len = Some (Some (runtime_error m), s')"
  shows "\<exists>before p after.
           pages_touched s ptr len = before @ p # after \<and>
           page_ref_count s p = None \<and>
           (\<forall>q \<in> set before. page_ref_count s q \<noteq> None) \<and>
           (\<forall>q. page_ref_count s' q =
              (if q \<in> set before
               then (case page_ref_count s q of
                       None \<Rightarrow> None
                     | Some c \<Rightarrow> if c = 1 then None else Some (c - 1))
               else page_ref_count s q)) \<and>
           calls (os s') =
             calls (os s) @
             map (\<lambda>q. Munlock q (page_size s))
               (filter (\<lambda>q. page_ref_count s q = Some 1) before)"
proof -
  let ?pages = "pages_touched s ptr len"
  have d: "distinct ?pages"
    using pages_touched_sorted by blast
  from assms have "remove_pages ?pages s = (Some (runtime_error m), s')"
    by (simp add: remove_allocation_pages)
  from remove_pages_untracked_prefix [OF this] obtain before p after where
    split: "?pages = before @ p # after" and pre: "remove_pages before s = (None, s')"
    and p: "page_ref_count s' p = None"
    by blast
  from d split have db: "distinct before" and np: "p \<notin> set before"
    by (metis distinct_append, metis distinct_append disjoint_iff list.set_intros(1))
  note eff = remove_pages_ok [OF db pre]
  from eff np p have 1: "page_ref_count s p = None"
    by simp
  from eff have 2: "\<forall>q \<in> set before. page_ref_count s q \<noteq> None"
    by blast
  from eff have 3: "\<forall>q. page_ref_count s' q =
              (if q \<in> set before
               then (case page_ref_count s q of
                       None \<Rightarrow> None
                     | Some c \<Rightarrow> if c = 1 then None else Some (c - 1))
               else page_ref_count s q)"
    by (simp add: decremented_def)
  from eff have 4: "calls (os s') = calls (os s) @
             map (\<lambda>q. Munlock q (page_size s))
               (filter (\<lambda>q. page_ref_count s q = Some 1) before)"
    by blast
  from split 1 2 3 4 show ?thesis
    by blast
qed

theorem remove_allocation_not_atomic_witness:
  "remove_allocation tracked_page_0 0 8192 =
     Some (Some (runtime_error ''Releasing memory not tracked by no_swap_allocator''),
       \<lparr>page_ref_count = Map.empty, mutex_locked = False, page_size = 4096,
        os = \<lparr>os_page_size = 4096, locked = {},
               calls = [Mlock 0 4096, Munlock 0 4096], errno = 0, outcomes = []\<rparr>\<rparr>) \<and>
   page_ref_count tracked_page_0 0 = Some 1 \<and>
   (\<exists>before p after.
      [0, 4096] = before @ p # after \<and> page_ref_count tracked_page_0 p = None \<and>
      calls (os \<lparr>page_ref_count = Map.empty, mutex_locked = False, page_size = 4096,
        os = \<lparr>os_page_size = 4096, locked = {},
               calls = [Mlock 0 4096, Munlock 0 4096], errno = 0, outcomes = []\<rparr>\<rparr>) =
        calls (os tracked_page_0) @
        map (\<lambda>q. Munlock q 4096)
          (filter (\<lambda>q. page_ref_count tracked_page_0 q = Some 1) before))"
proof -
  have ps: "0 < page_size tracked_page_0"
    by (simp add: tracked_page_0_def)
  have size: "page_size tracked_page_0 = 4096"
    by (simp add: tracked_page_0_def)
  note run = remove_untracked_example
  from remove_allocation_not_atomic [OF ps run]
  obtain before p after where
    "pages_touched tracked_page_0 0 8192 = before @ p # after"
    "page_ref_count tracked_page_0 p = None"
    "calls (os \<lparr>page_ref_count = Map.empty, mutex_locked = False, page_size = 4096,
        os = \<lparr>os_page_size = 4096, locked = {},
               calls = [Mlock 0 4096, Munlock 0 4096], errno = 0, outcomes = []\<rparr>\<rparr>) =
        calls (os tracked_page_0) @
        map (\<lambda>q. Munlock q (page_size tracked_page_0))
          (filter (\<lambda>q. page_ref_count tracked_page_0 q = Some 1) before)"
    by blast
  then have "\<exists>before p after.
      [0, 4096] = before @ p # after \<and> page_ref_count tracked_page_0 p = None \<and>
      calls (os \<lparr>page_ref_count = Map.empty, mutex_locked = False, page_size = 4096,
        os = \<lparr>os_page_size = 4096, locked = {},
               calls = [Mlock 0 4096, Munlock 0 4096], errno = 0, outcomes = []\<rparr>\<rparr>) =
        calls (os tracked_page_0) @
        map (\<lambda>q. Munlock q 4096)
          (filter (\<lambda>q. page_ref_count tracked_page_0 q = Some 1) before)"
    unfolding pages_touched_examples size by blast
  moreover have "page_ref_count tracked_page_0 0 = Some 1"
    by (simp add: tracked_page_0_def)
  ultimately show ?thesis
    using run by blast
qed

text \<open>
  Claim C2 (amended). At every state that a fresh tracker reaches through
  \<open>add_allocation\<close> and \<open>remove_allocation\<close> calls in which no operating system pin or
  unpin call fails and no count is incremented past \<open>2^32 - 1\<close> (calls that fail on
  untracked memory included), every page in the map has a count of at least 1 and is
  locked, and every page not in the map is not locked.
\<close>

theorem tracker_invariant:
  assumes "reachable_without_failure s"
  shows "tracker_inv s"
proof -
  from assms have "tracker_ok s"
  proof induction
    case (rwf_new os0)
    then show ?case
      by (rule new_state_tracker_ok)
  next
    case (rwf_call s c r s')
    then show ?case
      using call_preserves_tracker_ok by blast
  qed
  then show ?thesis
    by (simp add: tracker_ok_def)
qed

theorem tracker_invariant_witness:
  "reachable_without_failure tracked_two_pages \<and> tracker_inv tracked_two_pages"
proof -
  have "reachable_without_failure (new_state os_4096)"
    by (rule rwf_new) (simp_all add: os_4096_def)
  moreover have "call (Add 100 5000) (new_state os_4096) = Some (None, tracked_two_pages)"
    by (simp add: add_example tracked_two_pages_def)
  moreover have "\<not> os_failure None"
    by simp
  moreover have "\<not> count_overflow (Add 100 5000) (new_state os_4096)"
    by (simp add: new_state_os_4096)
  ultimately have "reachable_without_failure tracked_two_pages"
    by (rule rwf_call)
  with tracker_invariant [of tracked_two_pages] show ?thesis
    by simp
qed

text \<open>
  The claim as stated fails after a failed pin: \<open>add_allocation\<close> enters the page into
  the map before it calls \<open>pin_memory\<close>, so when \<open>mlock\<close> fails the page stays in the
  map with count 1 and is not locked.
\<close>

theorem tracker_invariant_counterexample:
  "reachable registered_not_locked \<and> \<not> tracker_inv registered_not_locked"
proof -
  have "reachable (new_state os_4096_failing)"
    by (rule reachable_new) (simp_all add: os_4096_failing_def)
  moreover have "call (Add 0 1) (new_state os_4096_failing) =
      Some (Some (system_error 12 ''pinning memory''), registered_not_locked)"
    using add_pin_failure_example by simp
  ultimately have "reachable registered_not_locked"
    by (rule reachable_call)
  moreover have "\<not> tracker_inv registered_not_locked"
  proof
    assume "tracker_inv registered_not_locked"
    then have "case page_ref_count registered_not_locked 0 of
                 Some c \<Rightarrow> 1 \<le> c \<and> 0 \<in> locked (os registered_not_locked)
               | None \<Rightarrow> 0 \<notin> locked (os registered_not_locked)"
      unfolding tracker_inv_def by (rule spec)
    then show False
      by (simp add: registered_not_locked_def)
  qed
  ultimately show ?thesis
    by simp
qed

end
